theory Spec2Isabelle
  imports Complex_Main "HOL-Library.Multiset" "HOL-Library.Sublist"
begin

section \<open>Dates, times of day and naive datetimes\<close>

text \<open>
  The daemon works with Python's naive \<^verbatim>\<open>datetime\<close>, \<^verbatim>\<open>date\<close>, \<^verbatim>\<open>time\<close> and
  \<^verbatim>\<open>timedelta\<close> values, all of microsecond resolution.  A date is its proleptic
  Gregorian ordinal (\<^verbatim>\<open>date.toordinal()\<close>), a time of day and a timedelta are a number
  of microseconds, and a naive datetime is the number of microseconds since midnight of
  ordinal day 0, so that datetime arithmetic is integer arithmetic.  The range limits of
  Python's datetime (years 1 to 9999) are not modelled.
\<close>

type_synonym date = int
type_synonym time_of_day = int
type_synonym datetime = int
type_synonym timedelta = int

definition usec_per_day :: int where
  "usec_per_day = 86400000000"

definition date_of :: "datetime \<Rightarrow> date" where
  "date_of t = t div usec_per_day"

definition time_of :: "datetime \<Rightarrow> time_of_day" where
  "time_of t = t mod usec_per_day"

definition combine :: "date \<Rightarrow> time_of_day \<Rightarrow> datetime" where
  "combine d t = d * usec_per_day + t"

definition dtime :: "int \<Rightarrow> int \<Rightarrow> int \<Rightarrow> time_of_day" where
  "dtime h m s = ((h * 60 + m) * 60 + s) * 1000000"

definition td_minutes :: "int \<Rightarrow> timedelta" where
  "td_minutes m = m * 60 * 1000000"

definition td_seconds :: "int \<Rightarrow> timedelta" where
  "td_seconds s = s * 1000000"

text \<open>\<^verbatim>\<open>date.weekday()\<close>: Monday is 0 and ordinal day 1 is a Monday; Friday is 4.\<close>

definition weekday :: "date \<Rightarrow> int" where
  "weekday d = (d + 6) mod 7"

section \<open>Configuration\<close>

definition PRAYERS :: "string list" where
  "PRAYERS = [''Fajr'', ''Dhuhr'', ''Asr'', ''Maghrib'', ''Isha'']"

definition SOUND_GENERAL :: string where
  "SOUND_GENERAL = ''./audio/athanfull.mp3''"

definition SOUND_FAJR :: string where
  "SOUND_FAJR = ''./audio/athanfullfajr.mp3''"

definition SOUND_ISHA_PRE :: string where
  "SOUND_ISHA_PRE = ''./audio/athkar_masaa.mp3''"

definition SOUND_MORNING :: string where
  "SOUND_MORNING = ''./audio/morning_athkar.mp3''"

definition SOUND_KAHF :: string where
  "SOUND_KAHF = ''./audio/alkahf.mp3''"

definition PRECLIP_SECONDS :: real where
  "PRECLIP_SECONDS = 600"

definition POLL_SEC :: int where
  "POLL_SEC = 5"

definition TRIGGER_WINDOW_SEC :: int where
  "TRIGGER_WINDOW_SEC = 60"

section \<open>Parsing the scraped times\<close>

text \<open>
  \<^verbatim>\<open>build_today_schedule\<close> raises when the page cannot be fetched
  (\<^verbatim>\<open>requests\<close> raises) and when \<^verbatim>\<open>strptime\<close> rejects a scraped time.
\<close>

datatype error = RequestError | ValueError

definition is_digit :: "char \<Rightarrow> bool" where
  "is_digit c = (c \<in> set ''0123456789'')"

definition digit_val :: "char \<Rightarrow> int" where
  "digit_val c = int (length (takeWhile (\<lambda>d. d \<noteq> c) ''0123456789''))"

definition digits_val :: "string \<Rightarrow> int" where
  "digits_val ds = foldl (\<lambda>a c. 10 * a + digit_val c) 0 ds"

text \<open>
  The \<^verbatim>\<open>%I:%M%p\<close> part of the format of \<^verbatim>\<open>parse_today_dt\<close>: an hour 1 to 12 of one
  or two digits, a colon, a minute of two digits up to 59 (or of one digit), and AM or
  PM in either case.  12AM is hour 0 and 12PM is hour 12.  Anything else is
  \<^verbatim>\<open>strptime\<close>'s ValueError.  The strings stored by \<^verbatim>\<open>fetch_epic_adhaan_times\<close> are
  matches of \<^verbatim>\<open>\d{1,2}:\d{2}\s*[AP]M\<close>, upper-cased and with the blanks removed.
\<close>

definition strptime_IMp :: "string \<Rightarrow> error + time_of_day" where
  "strptime_IMp s =
     (let hs = takeWhile is_digit s; r1 = dropWhile is_digit s in
      case r1 of
        [] \<Rightarrow> Inl ValueError
      | c # r2 \<Rightarrow>
          if c \<noteq> CHR '':'' then Inl ValueError
          else
            let ms = takeWhile is_digit r2; ap = dropWhile is_digit r2;
                h = digits_val hs; m = digits_val ms
            in if \<not> ((length hs = 1 \<or> length hs = 2) \<and> 1 \<le> h \<and> h \<le> 12) then Inl ValueError
               else if \<not> ((length ms = 2 \<and> m \<le> 59) \<or> length ms = 1) then Inl ValueError
               else if ap \<in> set [''AM'', ''am'', ''Am'', ''aM''] then Inr (dtime (h mod 12) m 0)
               else if ap \<in> set [''PM'', ''pm'', ''Pm'', ''pM''] then Inr (dtime (h mod 12 + 12) m 0)
               else Inl ValueError)"

text \<open>
  \<^verbatim>\<open>parse_today_dt\<close> formats \<^verbatim>\<open>date.today()\<close>, appends the scraped time and parses
  both back: the result is today's date combined with the parsed time of day.  The date
  read by \<^verbatim>\<open>date.today()\<close> is the parameter \<open>today\<close>.
\<close>

definition parse_today_dt :: "date \<Rightarrow> string \<Rightarrow> error + datetime" where
  "parse_today_dt today hhmm_ampm =
     (case strptime_IMp hhmm_ampm of
        Inl e \<Rightarrow> Inl e
      | Inr t \<Rightarrow> Inr (combine today t))"

section \<open>The schedule builder\<close>

text \<open>
  An event is the tuple \<^verbatim>\<open>(label, datetime, kind, payload)\<close> of the source; the kind is
  the string \<^verbatim>\<open>"play"\<close> or \<^verbatim>\<open>"quran"\<close> and the payload a path or \<^verbatim>\<open>None\<close>.
\<close>

type_synonym event = "string \<times> datetime \<times> string \<times> string option"

definition ev_label :: "event \<Rightarrow> string" where
  "ev_label e = fst e"

definition ev_time :: "event \<Rightarrow> datetime" where
  "ev_time e = fst (snd e)"

definition ev_kind :: "event \<Rightarrow> string" where
  "ev_kind e = fst (snd (snd e))"

definition ev_payload :: "event \<Rightarrow> string option" where
  "ev_payload e = snd (snd (snd e))"

definition sound_for :: "string \<Rightarrow> string" where
  "sound_for prayer = (if prayer = ''Fajr'' then SOUND_FAJR else SOUND_GENERAL)"

text \<open>
  The body of the loop over \<^verbatim>\<open>PRAYERS\<close> of \<^verbatim>\<open>build_today_schedule\<close> for a prayer
  \<open>p\<close> whose scraped time parsed to \<open>dtm\<close>: the two appends to the list \<open>schedule\<close>.
\<close>

definition append_prayer :: "date \<Rightarrow> string \<Rightarrow> datetime \<Rightarrow> event list \<Rightarrow> event list" where
  "append_prayer today p dtm schedule =
     (let audio = sound_for p;
          schedule1 = (if audio \<noteq> [] then schedule @ [(p, dtm, ''play'', Some audio)]
                       else schedule)
      in if p \<noteq> ''Isha'' \<and> \<not> (p = ''Asr'' \<and> weekday today = 4)
         then schedule1 @ [(p @ ''-QuranPre'', dtm - td_minutes 5, ''quran'', None)]
         else schedule1)"

text \<open>
  The loop itself.  \<open>tms\<close> is the dict \<^verbatim>\<open>times\<close> returned by
  \<^verbatim>\<open>fetch_epic_adhaan_times\<close>; a prayer that is not a key is skipped, and a
  \<^verbatim>\<open>strptime\<close> failure leaves the function.
\<close>

fun prayer_loop ::
  "date \<Rightarrow> (string \<rightharpoonup> string) \<Rightarrow> string list \<Rightarrow> event list \<Rightarrow> error + event list" where
  "prayer_loop today tms [] schedule = Inr schedule"
| "prayer_loop today tms (p # ps) schedule =
     (case tms p of
        None \<Rightarrow> prayer_loop today tms ps schedule
      | Some s \<Rightarrow>
          (case parse_today_dt today s of
             Inl e \<Rightarrow> Inl e
           | Inr dtm \<Rightarrow> prayer_loop today tms ps (append_prayer today p dtm schedule)))"

text \<open>
  The events in the order in which \<^verbatim>\<open>build_today_schedule\<close> appends them, before the
  final sort.  \<open>fetched\<close> is what \<^verbatim>\<open>fetch_epic_adhaan_times\<close> does (it raises, or
  returns the dict), \<open>today\<close> is the date \<^verbatim>\<open>date.today()\<close> returns during the call and
  \<open>isha_pre_exists\<close> is \<^verbatim>\<open>os.path.exists(SOUND_ISHA_PRE)\<close>.  The offset
  \<^verbatim>\<open>timedelta(seconds=19.45*60)\<close> is 1167 seconds to the microsecond.
\<close>

definition emit_events ::
  "error + (string \<rightharpoonup> string) \<Rightarrow> date \<Rightarrow> bool \<Rightarrow> error + event list" where
  "emit_events fetched today isha_pre_exists =
     (case fetched of
        Inl e \<Rightarrow> Inl e
      | Inr tms \<Rightarrow>
          (case prayer_loop today tms PRAYERS [] of
             Inl e \<Rightarrow> Inl e
           | Inr schedule1 \<Rightarrow>
               (case (if tms ''Isha'' \<noteq> None \<and> isha_pre_exists
                      then (case parse_today_dt today (the (tms ''Isha'')) of
                              Inl e \<Rightarrow> Inl e
                            | Inr isha_dt \<Rightarrow>
                                Inr (schedule1 @
                                  [(''Isha-Pre'', isha_dt - td_seconds 1167, ''play'', Some SOUND_ISHA_PRE)]))
                      else Inr schedule1) of
                  Inl e \<Rightarrow> Inl e
                | Inr schedule2 \<Rightarrow>
                    let morning_dt = combine today (dtime 6 30 0);
                        schedule3 = schedule2 @
                          [(''Morning-Athkar'', morning_dt, ''play'', Some SOUND_MORNING)]
                    in if weekday today = 4 \<and> tms ''Asr'' \<noteq> None
                       then (case parse_today_dt today (the (tms ''Asr'')) of
                               Inl e \<Rightarrow> Inl e
                             | Inr asr_dt \<Rightarrow>
                                 Inr (schedule3 @
                                   [(''Kahf-PreAsr'', asr_dt - td_minutes 31, ''play'', Some SOUND_KAHF)]))
                       else Inr schedule3)))"

text \<open>\<^verbatim>\<open>schedule.sort(key=lambda t: t[1])\<close>: Python's sort is stable, as \<open>sort_key\<close> is.\<close>

definition build_today_schedule ::
  "error + (string \<rightharpoonup> string) \<Rightarrow> date \<Rightarrow> bool \<Rightarrow> error + event list" where
  "build_today_schedule fetched today isha_pre_exists =
     (case emit_events fetched today isha_pre_exists of
        Inl e \<Rightarrow> Inl e
      | Inr schedule \<Rightarrow> Inr (sort_key ev_time schedule))"

section \<open>The refresh policy\<close>

text \<open>\<^verbatim>\<open>last_refresh_date\<close> is \<^verbatim>\<open>None\<close> until the first refresh.\<close>

definition should_refresh :: "datetime \<Rightarrow> date option \<Rightarrow> bool \<Rightarrow> bool" where
  "should_refresh now last_refresh refreshed_after =
     (if last_refresh = None then True
      else if Some (date_of now) \<noteq> last_refresh then True
      else if \<not> refreshed_after \<and> dtime 2 0 0 \<le> time_of now then True
      else False)"

section \<open>The engine loop\<close>

type_synonym key = "string \<times> date \<times> time_of_day"

text \<open>The key \<^verbatim>\<open>(label, t.date(), t.time())\<close> under which a fired event is remembered.\<close>

definition event_key :: "event \<Rightarrow> key" where
  "event_key e = (ev_label e, date_of (ev_time e), time_of (ev_time e))"

text \<open>
  \<^verbatim>\<open>diff = (now - t).total_seconds()\<close> and \<^verbatim>\<open>0 <= diff < TRIGGER_WINDOW_SEC\<close>, on the
  difference in microseconds.
\<close>

definition due :: "datetime \<Rightarrow> event \<Rightarrow> bool" where
  "due now e = (0 \<le> now - ev_time e \<and> now - ev_time e < TRIGGER_WINDOW_SEC * 1000000)"

text \<open>What firing an event does: the dispatch on the kind, then the refresh signal.\<close>

datatype action = PlaySound "string option" | PlayQuranSegment | EmitRefresh

definition dispatch :: "event \<Rightarrow> action list" where
  "dispatch e =
     (if ev_kind e = ''play'' then [PlaySound (ev_payload e)]
      else if ev_kind e = ''quran'' then [PlayQuranSegment]
      else []) @ [EmitRefresh]"

text \<open>
  The loop over the schedule of one tick.  It threads the set \<open>fired\<close> and returns it
  with the events that fired in this pass, in firing order.
\<close>

fun fire_loop :: "datetime \<Rightarrow> event list \<Rightarrow> key set \<Rightarrow> key set \<times> event list" where
  "fire_loop now [] fired_keys = (fired_keys, [])"
| "fire_loop now (e # es) fired_keys =
     (if event_key e \<in> fired_keys then fire_loop now es fired_keys
      else if due now e
           then (case fire_loop now es (insert (event_key e) fired_keys) of
                   (fired_keys', out) \<Rightarrow> (fired_keys', e # out))
           else fire_loop now es fired_keys)"

record engine =
  schedule :: "event list"
  fired :: "key set"
  last_refresh_date :: "date option"
  refreshed_after_2am :: bool

text \<open>
  What a call of \<^verbatim>\<open>build_today_schedule\<close> meets: the outcome of the fetch, the wall
  clock once the fetch has returned (the \<^verbatim>\<open>date.today()\<close> calls of the builder and of
  the engine's bookkeeping after it read this clock) and whether the Isha pre-file exists.
\<close>

record build_env =
  env_fetched :: "error + (string \<rightharpoonup> string)"
  env_clock :: datetime
  env_isha_pre :: bool

definition build_in :: "build_env \<Rightarrow> error + event list" where
  "build_in env =
     build_today_schedule (env_fetched env) (date_of (env_clock env)) (env_isha_pre env)"

text \<open>
  The initial fetch: one build per attempt, retried (after 60 seconds) until one
  succeeds.  The list holds what the successive attempts meet; \<open>None\<close> means that every
  attempt of the list failed and the loop is still retrying.  After a successful build
  the loop reads \<^verbatim>\<open>date.today()\<close> and \<^verbatim>\<open>datetime.now()\<close> one after the other, from
  the same clock value.
\<close>

definition init_engine :: "event list \<Rightarrow> datetime \<Rightarrow> engine" where
  "init_engine sched clock =
     \<lparr>schedule = sched, fired = {},
      last_refresh_date = Some (date_of clock),
      refreshed_after_2am = (dtime 2 0 0 \<le> time_of clock)\<rparr>"

fun initial_fetch :: "build_env list \<Rightarrow> engine option" where
  "initial_fetch [] = None"
| "initial_fetch (env # envs) =
     (case build_in env of
        Inl e \<Rightarrow> initial_fetch envs
      | Inr sched \<Rightarrow> Some (init_engine sched (env_clock env)))"

text \<open>
  The part of a tick after the refresh: the firing pass and the late update of
  \<^verbatim>\<open>refreshed_after_2am\<close>.  The result is the new state, the events fired, and the
  seconds slept before the next tick.
\<close>

definition fire_and_update :: "datetime \<Rightarrow> engine \<Rightarrow> engine \<times> event list \<times> int" where
  "fire_and_update now s =
     (case fire_loop now (schedule s) (fired s) of
        (fired_keys', out) \<Rightarrow>
          let s1 = s\<lparr>fired := fired_keys'\<rparr>;
              s2 = (if \<not> refreshed_after_2am s1 \<and> dtime 2 0 0 \<le> time_of now
                       \<and> Some (date_of now) = last_refresh_date s1
                    then s1\<lparr>refreshed_after_2am := True\<rparr> else s1)
          in (s2, out, POLL_SEC))"

text \<open>
  One iteration of the main loop.  \<open>now\<close> is \<^verbatim>\<open>datetime.now()\<close> read at the top of the
  iteration; \<open>env\<close> is what a rebuild meets if this tick makes one.  A failed rebuild
  sleeps 300 seconds and leaves the iteration (\<^verbatim>\<open>continue\<close>).
\<close>

definition tick :: "datetime \<Rightarrow> build_env \<Rightarrow> engine \<Rightarrow> engine \<times> event list \<times> int" where
  "tick now env s =
     (if should_refresh now (last_refresh_date s) (refreshed_after_2am s)
      then (case build_in env of
              Inl e \<Rightarrow> (s, [], 300)
            | Inr sched \<Rightarrow>
                fire_and_update now
                  (s\<lparr>schedule := sched, fired := {},
                     last_refresh_date := Some (date_of (env_clock env)),
                     refreshed_after_2am := (dtime 2 0 0 \<le> time_of now)\<rparr>))
      else fire_and_update now s)"

definition rebuilds :: "datetime \<Rightarrow> build_env \<Rightarrow> engine \<Rightarrow> bool" where
  "rebuilds now env s =
     (should_refresh now (last_refresh_date s) (refreshed_after_2am s) \<and> \<not> isl (build_in env))"

text \<open>
  Schedule generations, for stating the firing invariant: a counter that a successful
  rebuild increments, and the log of the events fired, each with the generation it fired
  in.  Neither is read by the engine.
\<close>

type_synonym logged = "engine \<times> nat \<times> (nat \<times> event) list"

definition tick_logged :: "logged \<Rightarrow> datetime \<times> build_env \<Rightarrow> logged" where
  "tick_logged st inp =
     (case st of (s, g, lg) \<Rightarrow>
      case inp of (now, env) \<Rightarrow>
        let g' = (if rebuilds now env s then Suc g else g)
        in case tick now env s of (s', out, pause) \<Rightarrow> (s', g', lg @ map (Pair g') out))"

definition run_logged :: "logged \<Rightarrow> (datetime \<times> build_env) list \<Rightarrow> logged" where
  "run_logged st inps = foldl tick_logged st inps"

definition logged_key :: "nat \<times> event \<Rightarrow> nat \<times> key" where
  "logged_key ge = (fst ge, event_key (snd ge))"

text \<open>
  The instants of the successful builds, for stating the invariant of
  \<^verbatim>\<open>refreshed_after_2am\<close>: the engine state with the list of the clock values at which
  a schedule was built.  The list is not read by the engine.
\<close>

type_synonym tracked = "engine \<times> datetime list"

fun initial_tracked :: "build_env list \<Rightarrow> tracked option" where
  "initial_tracked [] = None"
| "initial_tracked (env # envs) =
     (case build_in env of
        Inl e \<Rightarrow> initial_tracked envs
      | Inr sched \<Rightarrow> Some (init_engine sched (env_clock env), [env_clock env]))"

definition tick_tracked :: "tracked \<Rightarrow> datetime \<times> build_env \<Rightarrow> tracked" where
  "tick_tracked st inp =
     (case st of (s, builds) \<Rightarrow>
      case inp of (now, env) \<Rightarrow>
        (fst (tick now env s),
         if rebuilds now env s then builds @ [env_clock env] else builds))"

definition run_tracked :: "tracked \<Rightarrow> (datetime \<times> build_env) list \<Rightarrow> tracked" where
  "run_tracked st inps = foldl tick_tracked st inps"

text \<open>
  The invariant of the refresh state: the flag is set only if some build of the day
  \<^verbatim>\<open>last_refresh_date\<close> was made at or after 02:00.
\<close>

definition flag_justified :: "tracked \<Rightarrow> bool" where
  "flag_justified st =
     (case st of (s, builds) \<Rightarrow>
        refreshed_after_2am s \<longrightarrow>
          (\<exists>t \<in> set builds. Some (date_of t) = last_refresh_date s \<and> dtime 2 0 0 \<le> time_of t))"

section \<open>The segment player\<close>

text \<open>
  \<^verbatim>\<open>play_quran_segment\<close> plays the Quran file for \<^verbatim>\<open>PRECLIP_SECONDS\<close> of wall-clock
  time in a background thread.  Offsets, durations and clock readings are Python floats
  of seconds; the model computes with them as real numbers, and it runs the thread on an
  ideal clock: \<^verbatim>\<open>time.sleep(x)\<close> returns exactly \<open>x\<close> seconds later and
  every other statement takes no time.

  Python's \<^verbatim>\<open>%\<close> on floats takes the sign of the divisor.
\<close>

definition fmod :: "real \<Rightarrow> real \<Rightarrow> real" where
  "fmod x d = x - d * of_int \<lfloor>x / d\<rfloor>"

text \<open>
  The \<^verbatim>\<open>while\<close> loop of \<^verbatim>\<open>_play_loop\<close>.  The state is the clock and the variable
  \<^verbatim>\<open>offset\<close>; the result is both at the exit of the loop, or the ValueError of
  \<^verbatim>\<open>time.sleep\<close> on a negative duration.  \<open>None\<close> is a loop that never exits.
\<close>

partial_function (option) play_loop ::
  "real \<Rightarrow> real \<Rightarrow> real \<Rightarrow> real \<Rightarrow> (error + real \<times> real) option" where
  "play_loop duration end_time clock offset =
     (if clock < end_time
      then (let remaining_clip_time = duration - offset;
                remaining_total_time = end_time - clock;
                play_time = min remaining_clip_time remaining_total_time
            in if play_time < 0 then Some (Inl ValueError)
               else play_loop duration end_time (clock + play_time) 0)
      else Some (Inr (clock, offset)))"

text \<open>
  The thread \<^verbatim>\<open>_play_loop\<close>: the loop, then the offset handed to
  \<^verbatim>\<open>save_offset\<close>.
\<close>

definition play_thread :: "real \<Rightarrow> real \<Rightarrow> real \<Rightarrow> real \<Rightarrow> (error + real) option" where
  "play_thread duration end_time clock offset =
     (case play_loop duration end_time clock offset of
        None \<Rightarrow> None
      | Some (Inl e) \<Rightarrow> Some (Inl e)
      | Some (Inr (clock', offset')) \<Rightarrow>
          Some (Inr (fmod (offset' + (clock' - (end_time - PRECLIP_SECONDS))) duration)))"

text \<open>
  What a call of \<^verbatim>\<open>play_quran_segment\<close> does to the offset store: nothing (an early
  return, or a thread that died), or a save.
\<close>

datatype outcome = NotStarted | ThreadError error | Saved real

text \<open>
  \<open>have_pygame\<close> and \<open>file_exists\<close> are the two guards, \<open>duration\<close> is what
  \<^verbatim>\<open>_get_quran_duration_sec\<close> returns, \<open>stored\<close> is what \<^verbatim>\<open>load_offset\<close> returns and
  \<open>clock\<close> is \<^verbatim>\<open>time.time()\<close> at the call.  \<open>None\<close> is a thread that never finishes.
\<close>

definition play_quran_segment ::
  "bool \<Rightarrow> bool \<Rightarrow> real option \<Rightarrow> real \<Rightarrow> real \<Rightarrow> outcome option" where
  "play_quran_segment have_pygame file_exists duration stored clock =
     (if \<not> have_pygame then Some NotStarted
      else if \<not> file_exists then Some NotStarted
      else case duration of
             None \<Rightarrow> Some NotStarted
           | Some d \<Rightarrow>
               if d = 0 \<or> d \<le> 0 then Some NotStarted
               else let offset = fmod stored d;
                        end_time = clock + PRECLIP_SECONDS
                    in (case play_thread d end_time clock offset of
                          None \<Rightarrow> None
                        | Some (Inl e) \<Rightarrow> Some (ThreadError e)
                        | Some (Inr next_offset) \<Rightarrow> Some (Saved next_offset)))"

section \<open>Auxiliary definitions for the statements\<close>

text \<open>
  The three parts that \<^verbatim>\<open>build_today_schedule\<close> appends after the loop over the
  prayers, each on its own: the Isha pre event, the morning event and the Friday event.
\<close>

definition isha_part :: "(string \<rightharpoonup> string) \<Rightarrow> date \<Rightarrow> bool \<Rightarrow> error + event list" where
  "isha_part tms today ex =
     (case tms ''Isha'' of
        None \<Rightarrow> Inr []
      | Some s \<Rightarrow>
          if ex then (case parse_today_dt today s of
                        Inl e \<Rightarrow> Inl e
                      | Inr dt \<Rightarrow> Inr [(''Isha-Pre'', dt - td_seconds 1167, ''play'', Some SOUND_ISHA_PRE)])
          else Inr [])"

definition kahf_part :: "(string \<rightharpoonup> string) \<Rightarrow> date \<Rightarrow> error + event list" where
  "kahf_part tms today =
     (case tms ''Asr'' of
        None \<Rightarrow> Inr []
      | Some s \<Rightarrow>
          if weekday today = 4
          then (case parse_today_dt today s of
                  Inl e \<Rightarrow> Inl e
                | Inr dt \<Rightarrow> Inr [(''Kahf-PreAsr'', dt - td_minutes 31, ''play'', Some SOUND_KAHF)])
          else Inr [])"

definition morning_event :: "date \<Rightarrow> event" where
  "morning_event today =
     (''Morning-Athkar'', combine today (dtime 6 30 0), ''play'', Some SOUND_MORNING)"

text \<open>Every label the builder can give an event, in the order of emission.\<close>

definition all_labels :: "string list" where
  "all_labels = concat (map (\<lambda>p. [p, p @ ''-QuranPre'']) PRAYERS) @
     [''Isha-Pre''] @ [''Morning-Athkar''] @ [''Kahf-PreAsr'']"

text \<open>The five scraped times of the specification's example.\<close>

definition example_times :: "string \<rightharpoonup> string" where
  "example_times =
     [''Fajr'' \<mapsto> ''05:30AM'', ''Dhuhr'' \<mapsto> ''12:15PM'', ''Asr'' \<mapsto> ''3:45PM'',
      ''Maghrib'' \<mapsto> ''6:50PM'', ''Isha'' \<mapsto> ''8:10PM'']"

text \<open>
  The ordinals of Monday 1 January 2024 and of Friday 5 January 2024.
\<close>

definition monday_2024_01_01 :: date where
  "monday_2024_01_01 = 738886"

definition friday_2024_01_05 :: date where
  "friday_2024_01_05 = 738890"

text \<open>
  The invariant of the logged run: no log entry is of a later generation than the
  current one, the keys logged in the current generation are in the fired set, and no
  key is logged twice in one generation.
\<close>

definition log_inv :: "logged \<Rightarrow> bool" where
  "log_inv st =
     (case st of (s, g, lg) \<Rightarrow>
        (\<forall>ge \<in> set lg. fst ge \<le> g) \<and>
        (\<forall>ge \<in> set lg. fst ge = g \<longrightarrow> event_key (snd ge) \<in> fired s) \<and>
        distinct (map logged_key lg))"

section \<open>Properties of the schedule builder\<close>

lemma append_prayer_acc:
  "append_prayer today p dtm acc = acc @ append_prayer today p dtm []"
  by (simp add: append_prayer_def Let_def)

lemma append_prayer_labels:
  "subseq (map ev_label (append_prayer today p dtm [])) [p, p @ ''-QuranPre'']"
  by (simp add: append_prayer_def Let_def ev_label_def)

lemma append_prayer_events:
  "e \<in> set (append_prayer today p dtm []) \<Longrightarrow>
     e = (p, dtm, ''play'', Some (sound_for p)) \<or>
     (e = (p @ ''-QuranPre'', dtm - td_minutes 5, ''quran'', None) \<and> p \<noteq> ''Isha''
        \<and> \<not> (p = ''Asr'' \<and> weekday today = 4))"
  by (auto simp add: append_prayer_def Let_def split: if_splits)

lemma prayer_loop_acc:
  "prayer_loop today tms ps acc =
     (case prayer_loop today tms ps [] of Inl e \<Rightarrow> Inl e | Inr new \<Rightarrow> Inr (acc @ new))"
proof (induction ps arbitrary: acc)
  case Nil
  show ?case by simp
next
  case (Cons p ps)
  show ?case
  proof (cases "tms p")
    case None
    then show ?thesis using Cons.IH [of acc] by simp
  next
    case (Some s)
    show ?thesis
    proof (cases "parse_today_dt today s")
      case (Inl e)
      with Some show ?thesis by simp
    next
      case (Inr dtm)
      show ?thesis
      proof (cases "prayer_loop today tms ps []")
        case l: (Inl e)
        then show ?thesis
          using Some Inr Cons.IH [of "append_prayer today p dtm acc"]
            Cons.IH [of "append_prayer today p dtm []"]
          by simp
      next
        case r: (Inr rest)
        then show ?thesis
          using Some Inr Cons.IH [of "append_prayer today p dtm acc"]
            Cons.IH [of "append_prayer today p dtm []"]
            append_prayer_acc [of today p dtm acc]
          by simp
      qed
    qed
  qed
qed

lemma prayer_loop_Cons:
  "prayer_loop today tms (p # ps) [] =
     (case tms p of
        None \<Rightarrow> prayer_loop today tms ps []
      | Some s \<Rightarrow>
          (case parse_today_dt today s of
             Inl e \<Rightarrow> Inl e
           | Inr dtm \<Rightarrow>
               (case prayer_loop today tms ps [] of
                  Inl e \<Rightarrow> Inl e
                | Inr new \<Rightarrow> Inr (append_prayer today p dtm [] @ new))))"
  using prayer_loop_acc [of today tms ps "append_prayer today p dtm []" for dtm]
  by (simp split: option.splits sum.splits)

lemma prayer_loop_labels:
  "prayer_loop today tms ps [] = Inr new \<Longrightarrow>
     subseq (map ev_label new) (concat (map (\<lambda>p. [p, p @ ''-QuranPre'']) ps))"
proof (induction ps arbitrary: new)
  case Nil
  then show ?case by simp
next
  case (Cons p ps)
  show ?case
  proof (cases "tms p")
    case None
    with Cons.prems have "prayer_loop today tms ps [] = Inr new"
      by (simp add: prayer_loop_Cons del: prayer_loop.simps(2))
    from Cons.IH [OF this] show ?thesis
      by (simp add: list_emb_append2 [where zs = "[p, p @ ''-QuranPre'']", simplified])
  next
    case (Some s)
    with Cons.prems obtain dtm rest where
      p: "parse_today_dt today s = Inr dtm" and
      r: "prayer_loop today tms ps [] = Inr rest" and
      n: "new = append_prayer today p dtm [] @ rest"
      by (auto simp add: prayer_loop_Cons simp del: prayer_loop.simps(2) split: sum.splits)
    have "subseq (map ev_label (append_prayer today p dtm []) @ map ev_label rest)
            ([p, p @ ''-QuranPre''] @ concat (map (\<lambda>p. [p, p @ ''-QuranPre'']) ps))"
      by (rule list_emb_append_mono [OF append_prayer_labels Cons.IH [OF r]])
    with n show ?thesis by simp
  qed
qed

lemma prayer_loop_events:
  "prayer_loop today tms ps [] = Inr new \<Longrightarrow> e \<in> set new \<Longrightarrow>
     \<exists>p \<in> set ps. \<exists>s dtm. tms p = Some s \<and> parse_today_dt today s = Inr dtm \<and>
       e \<in> set (append_prayer today p dtm [])"
proof (induction ps arbitrary: new)
  case Nil
  then show ?case by simp
next
  case (Cons p ps)
  show ?case
  proof (cases "tms p")
    case None
    with Cons.prems have "prayer_loop today tms ps [] = Inr new"
      by (simp add: prayer_loop_Cons del: prayer_loop.simps(2))
    from Cons.IH [OF this Cons.prems(2)] show ?thesis by auto
  next
    case (Some s)
    with Cons.prems obtain dtm rest where
      p: "parse_today_dt today s = Inr dtm" and
      r: "prayer_loop today tms ps [] = Inr rest" and
      n: "new = append_prayer today p dtm [] @ rest"
      by (auto simp add: prayer_loop_Cons simp del: prayer_loop.simps(2) split: sum.splits)
    from n Cons.prems(2) consider "e \<in> set (append_prayer today p dtm [])" | "e \<in> set rest"
      by auto
    then show ?thesis
    proof cases
      case 1
      with Some p show ?thesis by auto
    next
      case 2
      from Cons.IH [OF r 2] show ?thesis by auto
    qed
  qed
qed

lemma prayer_loop_total:
  "\<forall>p \<in> set ps. \<forall>s. tms p = Some s \<longrightarrow> \<not> isl (strptime_IMp s) \<Longrightarrow>
     \<exists>new. prayer_loop today tms ps [] = Inr new"
proof (induction ps)
  case Nil
  show ?case by simp
next
  case (Cons p ps)
  then obtain rest where r: "prayer_loop today tms ps [] = Inr rest" by auto
  show ?case
  proof (cases "tms p")
    case None
    with r show ?thesis by (simp add: prayer_loop_Cons del: prayer_loop.simps(2))
  next
    case (Some s)
    with Cons.prems have "\<not> isl (strptime_IMp s)" by simp
    then obtain t where "strptime_IMp s = Inr t" by (cases "strptime_IMp s") auto
    with Some r show ?thesis by (simp add: prayer_loop_Cons parse_today_dt_def del: prayer_loop.simps(2))
  qed
qed

lemma subseq_distinct: "subseq xs ys \<Longrightarrow> distinct ys \<Longrightarrow> distinct xs"
proof (induction rule: list_emb.induct)
  case (list_emb_Nil ys)
  show ?case by simp
next
  case (list_emb_Cons xs ys y)
  then show ?case by simp
next
  case (list_emb_Cons2 x y xs ys)
  then have "x \<notin> set xs" by (auto dest: list_emb_set)
  with list_emb_Cons2 show ?case by simp
qed


lemma emit_events_parts:
  "emit_events (Inr tms) today ex = Inr raw \<longleftrightarrow>
     (\<exists>looped isha kahf.
        prayer_loop today tms PRAYERS [] = Inr looped \<and>
        isha_part tms today ex = Inr isha \<and>
        kahf_part tms today = Inr kahf \<and>
        raw = looped @ isha @ [morning_event today] @ kahf)"
proof (cases "prayer_loop today tms PRAYERS []")
  case (Inl e)
  then show ?thesis by (simp add: emit_events_def)
next
  case l: (Inr looped)
  show ?thesis
  proof (cases "isha_part tms today ex")
    case (Inl e)
    then show ?thesis using l
      by (auto simp add: emit_events_def isha_part_def split: option.splits if_splits sum.splits)
  next
    case i: (Inr isha)
    show ?thesis
    proof (cases "kahf_part tms today")
      case (Inl e)
      then show ?thesis using l i
        by (auto simp add: emit_events_def isha_part_def kahf_part_def Let_def
            split: option.splits if_splits sum.splits)
    next
      case k: (Inr kahf)
      then show ?thesis using l i
        by (auto simp add: emit_events_def isha_part_def kahf_part_def morning_event_def Let_def
            split: option.splits if_splits sum.splits)
    qed
  qed
qed


lemma distinct_all_labels: "distinct all_labels"
  by (simp add: all_labels_def PRAYERS_def)

lemma isha_part_labels: "isha_part tms today ex = Inr isha \<Longrightarrow> subseq (map ev_label isha) [''Isha-Pre'']"
  by (auto simp add: isha_part_def ev_label_def split: option.splits if_splits sum.splits)

lemma kahf_part_labels: "kahf_part tms today = Inr kahf \<Longrightarrow> subseq (map ev_label kahf) [''Kahf-PreAsr'']"
  by (auto simp add: kahf_part_def ev_label_def split: option.splits if_splits sum.splits)

lemma emit_events_labels:
  assumes "emit_events (Inr tms) today ex = Inr raw"
  shows "subseq (map ev_label raw) all_labels"
proof -
  from assms obtain looped isha kahf where
    l: "prayer_loop today tms PRAYERS [] = Inr looped" and
    i: "isha_part tms today ex = Inr isha" and
    k: "kahf_part tms today = Inr kahf" and
    r: "raw = looped @ isha @ [morning_event today] @ kahf"
    unfolding emit_events_parts by blast
  have m: "subseq (map ev_label [morning_event today]) [''Morning-Athkar'']"
    by (simp add: morning_event_def ev_label_def)
  have "subseq (map ev_label looped @ map ev_label isha @ map ev_label [morning_event today]
                  @ map ev_label kahf) all_labels"
    unfolding all_labels_def
    by (intro list_emb_append_mono prayer_loop_labels [OF l] isha_part_labels [OF i] m
        kahf_part_labels [OF k])
  then show ?thesis by (simp add: r)
qed

lemma build_shape:
  "build_today_schedule fetched today ex = Inr sched \<Longrightarrow>
     \<exists>tms raw. fetched = Inr tms \<and> emit_events (Inr tms) today ex = Inr raw \<and>
       sched = sort_key ev_time raw"
  by (cases fetched)
     (auto simp add: build_today_schedule_def emit_events_def split: sum.splits)

text \<open>
  Claim C10.  The events of one schedule returned by the builder have pairwise distinct
  labels, and therefore pairwise distinct keys \<^verbatim>\<open>(label, date, time)\<close>.
\<close>
theorem build_labels_distinct:
  assumes "build_today_schedule fetched today ex = Inr sched"
  shows "distinct (map ev_label sched) \<and> distinct (map event_key sched)"
proof -
  from assms obtain tms raw where
    raw: "emit_events (Inr tms) today ex = Inr raw" and s: "sched = sort_key ev_time raw"
    using build_shape by blast
  have "distinct (map ev_label raw)"
    by (rule subseq_distinct [OF emit_events_labels [OF raw] distinct_all_labels])
  then have l: "distinct (map ev_label sched)"
    by (simp add: s distinct_map)
  have "inj_on event_key (set sched)"
  proof (rule inj_onI)
    fix a b assume "a \<in> set sched" "b \<in> set sched" "event_key a = event_key b"
    then have "ev_label a = ev_label b" by (simp add: event_key_def)
    with l \<open>a \<in> set sched\<close> \<open>b \<in> set sched\<close> show "a = b"
      by (auto simp add: distinct_map dest: inj_onD)
  qed
  with l show ?thesis by (simp add: distinct_map)
qed

lemma parse_total: "\<not> isl (strptime_IMp s) \<Longrightarrow> \<exists>dt. parse_today_dt today s = Inr dt"
  by (cases "strptime_IMp s") (auto simp add: parse_today_dt_def)

text \<open>
  Claim C6.  For every dict of scraped times whose values \<^verbatim>\<open>strptime\<close> accepts, on every
  day, the builder returns a schedule; it is sorted ascending by event time, it holds the
  emitted events and no others, and the events of equal time are in their order of
  emission.
\<close>
theorem build_sorted_stable:
  assumes "\<forall>p \<in> set PRAYERS. \<forall>s. tms p = Some s \<longrightarrow> \<not> isl (strptime_IMp s)"
  shows "\<exists>raw sched. emit_events (Inr tms) today ex = Inr raw \<and>
           build_today_schedule (Inr tms) today ex = Inr sched \<and>
           sorted (map ev_time sched) \<and> mset sched = mset raw \<and>
           (\<forall>t. filter (\<lambda>e. ev_time e = t) sched = filter (\<lambda>e. ev_time e = t) raw)"
proof -
  from prayer_loop_total [OF assms] obtain looped where
    l: "prayer_loop today tms PRAYERS [] = Inr looped" by blast
  have "\<exists>isha. isha_part tms today ex = Inr isha"
  proof (cases "tms ''Isha''")
    case None
    then show ?thesis by (simp add: isha_part_def)
  next
    case (Some s)
    with assms have "\<not> isl (strptime_IMp s)" by (simp add: PRAYERS_def)
    from parse_total [OF this, of today] obtain dt where "parse_today_dt today s = Inr dt" by blast
    with Some show ?thesis by (simp add: isha_part_def)
  qed
  then obtain isha where i: "isha_part tms today ex = Inr isha" by blast
  have "\<exists>kahf. kahf_part tms today = Inr kahf"
  proof (cases "tms ''Asr''")
    case None
    then show ?thesis by (simp add: kahf_part_def)
  next
    case (Some s)
    with assms have "\<not> isl (strptime_IMp s)" by (simp add: PRAYERS_def)
    from parse_total [OF this, of today] obtain dt where "parse_today_dt today s = Inr dt" by blast
    with Some show ?thesis by (simp add: kahf_part_def)
  qed
  then obtain kahf where k: "kahf_part tms today = Inr kahf" by blast
  from l i k have raw: "emit_events (Inr tms) today ex = Inr (looped @ isha @ [morning_event today] @ kahf)"
    unfolding emit_events_parts by blast
  then have "build_today_schedule (Inr tms) today ex =
      Inr (sort_key ev_time (looped @ isha @ [morning_event today] @ kahf))"
    by (simp add: build_today_schedule_def)
  with raw show ?thesis
    by (simp add: sort_key_stable)
qed

lemma append_prayer_no_asr_pre:
  assumes "weekday today = 4" and "p \<in> set PRAYERS"
    and "e \<in> set (append_prayer today p dtm [])"
  shows "ev_label e \<noteq> ''Asr-QuranPre''"
proof -
  from append_prayer_events [OF assms(3)] consider
    (play) "e = (p, dtm, ''play'', Some (sound_for p))" |
    (pre) "e = (p @ ''-QuranPre'', dtm - td_minutes 5, ''quran'', None)"
          "\<not> (p = ''Asr'' \<and> weekday today = 4)"
    by blast
  then show ?thesis
  proof cases
    case play
    have "''Asr-QuranPre'' \<notin> set PRAYERS" by (simp add: PRAYERS_def)
    with assms(2) play show ?thesis by (auto simp add: ev_label_def)
  next
    case pre
    with assms(1) have "p \<noteq> ''Asr''" by simp
    then have "p @ ''-QuranPre'' \<noteq> ''Asr'' @ ''-QuranPre''" by (simp only: append_same_eq not_False_eq_True)
    with pre(1) show ?thesis by (simp add: ev_label_def)
  qed
qed

text \<open>
  Claim C7.  On a Friday, when the dict has a time for Asr and the builder returns a
  schedule, the schedule holds the event \<^verbatim>\<open>Kahf-PreAsr\<close> of kind \<^verbatim>\<open>play\<close> exactly 31
  minutes before the Asr time, and no event labelled \<^verbatim>\<open>Asr-QuranPre\<close>.
\<close>
theorem friday_kahf_replaces_asr_pre:
  assumes "weekday today = 4" and "tms ''Asr'' = Some s"
    and "build_today_schedule (Inr tms) today ex = Inr sched"
  shows "\<exists>asr_dt. parse_today_dt today s = Inr asr_dt \<and>
           (''Kahf-PreAsr'', asr_dt - td_minutes 31, ''play'', Some SOUND_KAHF) \<in> set sched \<and>
           (\<forall>e \<in> set sched. ev_label e \<noteq> ''Asr-QuranPre'')"
proof -
  from assms(3) obtain raw where
    raw: "emit_events (Inr tms) today ex = Inr raw" and s: "sched = sort_key ev_time raw"
    using build_shape by blast
  from raw obtain looped isha kahf where
    l: "prayer_loop today tms PRAYERS [] = Inr looped" and
    i: "isha_part tms today ex = Inr isha" and
    k: "kahf_part tms today = Inr kahf" and
    r: "raw = looped @ isha @ [morning_event today] @ kahf"
    unfolding emit_events_parts by blast
  from k assms(1,2) obtain asr_dt where
    p: "parse_today_dt today s = Inr asr_dt" and
    kf: "kahf = [(''Kahf-PreAsr'', asr_dt - td_minutes 31, ''play'', Some SOUND_KAHF)]"
    by (auto simp add: kahf_part_def split: sum.splits)
  have m: "(''Kahf-PreAsr'', asr_dt - td_minutes 31, ''play'', Some SOUND_KAHF) \<in> set sched"
    by (simp add: s r kf)
  have n: "ev_label e \<noteq> ''Asr-QuranPre''" if e: "e \<in> set looped" for e
  proof -
    from prayer_loop_events [OF l e] obtain p dtm where
      "p \<in> set PRAYERS" "e \<in> set (append_prayer today p dtm [])" by blast
    with assms(1) show ?thesis by (rule append_prayer_no_asr_pre)
  qed
  have i': "ev_label e \<noteq> ''Asr-QuranPre''" if "e \<in> set isha" for e
    using that i by (auto simp add: isha_part_def ev_label_def split: option.splits if_splits sum.splits)
  have k': "ev_label e \<noteq> ''Asr-QuranPre''" if "e \<in> set kahf" for e
    using that by (simp add: kf ev_label_def)
  have m': "ev_label (morning_event today) \<noteq> ''Asr-QuranPre''"
    by (simp add: ev_label_def morning_event_def)
  have "ev_label e \<noteq> ''Asr-QuranPre''" if "e \<in> set raw" for e
  proof -
    from that r have "e \<in> set looped \<or> e \<in> set isha \<or> e = morning_event today \<or> e \<in> set kahf"
      by auto
    with n i' k' m' show ?thesis by blast
  qed
  with p m show ?thesis by (auto simp add: s)
qed


lemmas time_defs = combine_def dtime_def td_minutes_def td_seconds_def usec_per_day_def

lemma strptime_examples:
  "strptime_IMp ''05:30AM'' = Inr (dtime 5 30 0)"
  "strptime_IMp ''12:15PM'' = Inr (dtime 12 15 0)"
  "strptime_IMp ''3:45PM'' = Inr (dtime 15 45 0)"
  "strptime_IMp ''6:50PM'' = Inr (dtime 18 50 0)"
  "strptime_IMp ''8:10PM'' = Inr (dtime 20 10 0)"
  by (simp_all add: strptime_IMp_def is_digit_def digits_val_def digit_val_def dtime_def)

lemma example_schedule:
  "build_today_schedule (Inr example_times) today True =
   Inr (if weekday today = 4 then
      [(''Fajr-QuranPre'', combine today (dtime 5 25 0), ''quran'', None),
       (''Fajr'', combine today (dtime 5 30 0), ''play'', Some SOUND_FAJR),
       (''Morning-Athkar'', combine today (dtime 6 30 0), ''play'', Some SOUND_MORNING),
       (''Dhuhr-QuranPre'', combine today (dtime 12 10 0), ''quran'', None),
       (''Dhuhr'', combine today (dtime 12 15 0), ''play'', Some SOUND_GENERAL),
       (''Kahf-PreAsr'', combine today (dtime 15 14 0), ''play'', Some SOUND_KAHF),
       (''Asr'', combine today (dtime 15 45 0), ''play'', Some SOUND_GENERAL),
       (''Maghrib-QuranPre'', combine today (dtime 18 45 0), ''quran'', None),
       (''Maghrib'', combine today (dtime 18 50 0), ''play'', Some SOUND_GENERAL),
       (''Isha-Pre'', combine today (dtime 19 50 33), ''play'', Some SOUND_ISHA_PRE),
       (''Isha'', combine today (dtime 20 10 0), ''play'', Some SOUND_GENERAL)]
    else
      [(''Fajr-QuranPre'', combine today (dtime 5 25 0), ''quran'', None),
       (''Fajr'', combine today (dtime 5 30 0), ''play'', Some SOUND_FAJR),
       (''Morning-Athkar'', combine today (dtime 6 30 0), ''play'', Some SOUND_MORNING),
       (''Dhuhr-QuranPre'', combine today (dtime 12 10 0), ''quran'', None),
       (''Dhuhr'', combine today (dtime 12 15 0), ''play'', Some SOUND_GENERAL),
       (''Asr-QuranPre'', combine today (dtime 15 40 0), ''quran'', None),
       (''Asr'', combine today (dtime 15 45 0), ''play'', Some SOUND_GENERAL),
       (''Maghrib-QuranPre'', combine today (dtime 18 45 0), ''quran'', None),
       (''Maghrib'', combine today (dtime 18 50 0), ''play'', Some SOUND_GENERAL),
       (''Isha-Pre'', combine today (dtime 19 50 33), ''play'', Some SOUND_ISHA_PRE),
       (''Isha'', combine today (dtime 20 10 0), ''play'', Some SOUND_GENERAL)])"
  by (simp add: build_today_schedule_def emit_events_def PRAYERS_def append_prayer_def sound_for_def
      example_times_def parse_today_dt_def strptime_examples time_defs ev_time_def Let_def
      SOUND_FAJR_def SOUND_GENERAL_def)

lemma weekday_examples: "weekday monday_2024_01_01 = 0" "weekday friday_2024_01_05 = 4"
  by (simp_all add: weekday_def monday_2024_01_01_def friday_2024_01_05_def)

text \<open>
  Claim C3.  On a day that is not a Friday, with the Isha pre-file present, the five
  scraped times 05:30AM, 12:15PM, 3:45PM, 6:50PM and 8:10PM give exactly the eleven
  events below, in ascending order of their times: each prayer at its time, a Quran
  segment five minutes before every prayer but Isha, the Isha pre event at 19:50:33 and
  the morning event at 06:30.
\<close>
theorem example_day_schedule: "weekday today \<noteq> 4 \<Longrightarrow>
  build_today_schedule
    (Inr [''Fajr'' \<mapsto> ''05:30AM'', ''Dhuhr'' \<mapsto> ''12:15PM'', ''Asr'' \<mapsto> ''3:45PM'',
          ''Maghrib'' \<mapsto> ''6:50PM'', ''Isha'' \<mapsto> ''8:10PM''])
    today True =
  Inr [(''Fajr-QuranPre'', combine today (dtime 5 25 0), ''quran'', None),
       (''Fajr'', combine today (dtime 5 30 0), ''play'', Some SOUND_FAJR),
       (''Morning-Athkar'', combine today (dtime 6 30 0), ''play'', Some SOUND_MORNING),
       (''Dhuhr-QuranPre'', combine today (dtime 12 10 0), ''quran'', None),
       (''Dhuhr'', combine today (dtime 12 15 0), ''play'', Some SOUND_GENERAL),
       (''Asr-QuranPre'', combine today (dtime 15 40 0), ''quran'', None),
       (''Asr'', combine today (dtime 15 45 0), ''play'', Some SOUND_GENERAL),
       (''Maghrib-QuranPre'', combine today (dtime 18 45 0), ''quran'', None),
       (''Maghrib'', combine today (dtime 18 50 0), ''play'', Some SOUND_GENERAL),
       (''Isha-Pre'', combine today (dtime 19 50 33), ''play'', Some SOUND_ISHA_PRE),
       (''Isha'', combine today (dtime 20 10 0), ''play'', Some SOUND_GENERAL)]"
  using example_schedule [of today] by (simp add: example_times_def)

text \<open>An instance of the theorem above, with its hypotheses discharged.\<close>

theorem example_day_schedule_witness:
  "weekday monday_2024_01_01 \<noteq> 4 \<and>
   map (\<lambda>e. (ev_label e, ev_time e - combine monday_2024_01_01 0))
     (projr (build_today_schedule
        (Inr [''Fajr'' \<mapsto> ''05:30AM'', ''Dhuhr'' \<mapsto> ''12:15PM'', ''Asr'' \<mapsto> ''3:45PM'',
              ''Maghrib'' \<mapsto> ''6:50PM'', ''Isha'' \<mapsto> ''8:10PM''])
        monday_2024_01_01 True)) =
   [(''Fajr-QuranPre'', dtime 5 25 0), (''Fajr'', dtime 5 30 0), (''Morning-Athkar'', dtime 6 30 0),
    (''Dhuhr-QuranPre'', dtime 12 10 0), (''Dhuhr'', dtime 12 15 0),
    (''Asr-QuranPre'', dtime 15 40 0), (''Asr'', dtime 15 45 0),
    (''Maghrib-QuranPre'', dtime 18 45 0), (''Maghrib'', dtime 18 50 0),
    (''Isha-Pre'', dtime 19 50 33), (''Isha'', dtime 20 10 0)]"
proof -
  have h: "weekday monday_2024_01_01 \<noteq> 4" by (simp add: weekday_examples)
  show ?thesis using h example_day_schedule [OF h] by (simp add: ev_label_def ev_time_def combine_def)
qed

lemma example_times_valid:
  "\<forall>p \<in> set PRAYERS. \<forall>s. example_times p = Some s \<longrightarrow> \<not> isl (strptime_IMp s)"
  by (simp add: PRAYERS_def example_times_def strptime_examples)

text \<open>An instance of the theorem above, with its hypotheses discharged.\<close>

theorem build_sorted_stable_witness:
  "\<exists>raw sched. emit_events (Inr example_times) friday_2024_01_05 True = Inr raw \<and>
           build_today_schedule (Inr example_times) friday_2024_01_05 True = Inr sched \<and>
           sorted (map ev_time sched) \<and> mset sched = mset raw \<and>
           (\<forall>t. filter (\<lambda>e. ev_time e = t) sched = filter (\<lambda>e. ev_time e = t) raw)"
  by (rule build_sorted_stable [OF example_times_valid])

text \<open>An instance of the theorem above, with its hypotheses discharged.\<close>

theorem friday_kahf_replaces_asr_pre_witness:
  "weekday friday_2024_01_05 = 4 \<and> example_times ''Asr'' = Some ''3:45PM'' \<and>
   (\<exists>sched. build_today_schedule (Inr example_times) friday_2024_01_05 True = Inr sched \<and>
      (''Kahf-PreAsr'', combine friday_2024_01_05 (dtime 15 14 0), ''play'', Some SOUND_KAHF) \<in> set sched \<and>
      (\<forall>e \<in> set sched. ev_label e \<noteq> ''Asr-QuranPre''))"
proof -
  have h1: "weekday friday_2024_01_05 = 4" by (simp add: weekday_examples)
  have h2: "example_times ''Asr'' = Some ''3:45PM''" by (simp add: example_times_def)
  obtain sched where
    h3: "build_today_schedule (Inr example_times) friday_2024_01_05 True = Inr sched"
    by (simp add: example_schedule)
  have p: "parse_today_dt friday_2024_01_05 ''3:45PM'' = Inr (combine friday_2024_01_05 (dtime 15 45 0))"
    by (simp add: parse_today_dt_def strptime_examples)
  have t: "combine friday_2024_01_05 (dtime 15 45 0) - td_minutes 31 =
           combine friday_2024_01_05 (dtime 15 14 0)"
    by (simp add: time_defs)
  from friday_kahf_replaces_asr_pre [OF h1 h2 h3] p t h1 h2 h3 show ?thesis by auto
qed

text \<open>An instance of the theorem above, with its hypotheses discharged.\<close>

theorem build_labels_distinct_witness:
  "\<exists>sched. build_today_schedule (Inr example_times) friday_2024_01_05 True = Inr sched \<and>
     distinct (map ev_label sched) \<and> distinct (map event_key sched)"
proof -
  obtain sched where
    h: "build_today_schedule (Inr example_times) friday_2024_01_05 True = Inr sched"
    by (simp add: example_schedule)
  from build_labels_distinct [OF h] h show ?thesis by blast
qed

section \<open>Properties of the refresh policy and of the engine loop\<close>

text \<open>
  Claim C4.  \<^verbatim>\<open>should_refresh\<close> returns true exactly when there has been no refresh
  yet, or the date of \<open>now\<close> differs from the date of the last refresh, or the flag is
  unset and the time of day of \<open>now\<close> is 02:00 or later.
\<close>

theorem should_refresh_iff:
  "should_refresh now lrd flag \<longleftrightarrow>
     (lrd = None \<or> Some (date_of now) \<noteq> lrd \<or> (\<not> flag \<and> dtime 2 0 0 \<le> time_of now))"
  by (simp add: should_refresh_def)

lemma clock_examples:
  "date_of (combine monday_2024_01_01 (dtime 1 59 59)) = monday_2024_01_01"
  "time_of (combine monday_2024_01_01 (dtime 1 59 59)) = dtime 1 59 59"
  "date_of (combine monday_2024_01_01 (dtime 2 0 0)) = monday_2024_01_01"
  "time_of (combine monday_2024_01_01 (dtime 2 0 0)) = dtime 2 0 0"
  by (simp_all add: date_of_def time_of_def time_defs monday_2024_01_01_def)

text \<open>An instance of the theorem above, evaluated.\<close>

theorem should_refresh_iff_witness:
  "should_refresh (combine monday_2024_01_01 (dtime 2 0 0)) None True \<and>
   should_refresh (combine monday_2024_01_01 (dtime 2 0 0)) (Some friday_2024_01_05) True \<and>
   should_refresh (combine monday_2024_01_01 (dtime 2 0 0)) (Some monday_2024_01_01) False \<and>
   \<not> should_refresh (combine monday_2024_01_01 (dtime 1 59 59)) (Some monday_2024_01_01) False \<and>
   \<not> should_refresh (combine monday_2024_01_01 (dtime 2 0 0)) (Some monday_2024_01_01) True"
  using should_refresh_iff [of "combine monday_2024_01_01 (dtime 2 0 0)" None True]
    should_refresh_iff [of "combine monday_2024_01_01 (dtime 2 0 0)" "Some friday_2024_01_05" True]
    should_refresh_iff [of "combine monday_2024_01_01 (dtime 2 0 0)" "Some monday_2024_01_01" False]
    should_refresh_iff [of "combine monday_2024_01_01 (dtime 1 59 59)" "Some monday_2024_01_01" False]
    should_refresh_iff [of "combine monday_2024_01_01 (dtime 2 0 0)" "Some monday_2024_01_01" True]
  by (simp add: clock_examples) (simp add: dtime_def monday_2024_01_01_def friday_2024_01_05_def)

lemma fire_loop_fired:
  "fire_loop now es F = (F', out) \<Longrightarrow> F' = F \<union> event_key ` set out"
proof (induction es arbitrary: F F' out)
  case Nil
  then show ?case by simp
next
  case (Cons e es)
  show ?case
  proof (cases "event_key e \<notin> F \<and> due now e")
    case True
    obtain F1 out1 where r: "fire_loop now es (insert (event_key e) F) = (F1, out1)"
      by (cases "fire_loop now es (insert (event_key e) F)")
    with True Cons.prems have "F' = F1" "out = e # out1" by simp_all
    with Cons.IH [OF r] show ?thesis by auto
  next
    case False
    with Cons.prems have "fire_loop now es F = (F', out)" by (auto split: if_splits)
    then show ?thesis by (rule Cons.IH)
  qed
qed

lemma fire_loop_out:
  "fire_loop now es F = (F', out) \<Longrightarrow> e \<in> set out \<Longrightarrow>
     e \<in> set es \<and> due now e \<and> event_key e \<notin> F"
proof (induction es arbitrary: F F' out)
  case Nil
  then show ?case by simp
next
  case (Cons a es)
  show ?case
  proof (cases "event_key a \<notin> F \<and> due now a")
    case True
    obtain F1 out1 where r: "fire_loop now es (insert (event_key a) F) = (F1, out1)"
      by (cases "fire_loop now es (insert (event_key a) F)")
    with True Cons.prems have o: "out = a # out1" by simp
    show ?thesis
    proof (cases "e = a")
      case True
      with \<open>event_key a \<notin> F \<and> due now a\<close> show ?thesis by simp
    next
      case False
      with o Cons.prems(2) have "e \<in> set out1" by simp
      from Cons.IH [OF r this] show ?thesis by simp
    qed
  next
    case False
    with Cons.prems have "fire_loop now es F = (F', out)" by (auto split: if_splits)
    from Cons.IH [OF this Cons.prems(2)] show ?thesis by simp
  qed
qed

lemma fire_loop_distinct:
  "fire_loop now es F = (F', out) \<Longrightarrow> distinct (map event_key out)"
proof (induction es arbitrary: F F' out)
  case Nil
  then show ?case by simp
next
  case (Cons a es)
  show ?case
  proof (cases "event_key a \<notin> F \<and> due now a")
    case True
    obtain F1 out1 where r: "fire_loop now es (insert (event_key a) F) = (F1, out1)"
      by (cases "fire_loop now es (insert (event_key a) F)")
    with True Cons.prems have o: "out = a # out1" by simp
    have "event_key a \<notin> event_key ` set out1"
    proof
      assume "event_key a \<in> event_key ` set out1"
      then obtain x where x: "x \<in> set out1" "event_key a = event_key x" by blast
      from fire_loop_out [OF r x(1)] have "event_key x \<notin> insert (event_key a) F" by blast
      with x(2) show False by simp
    qed
    with Cons.IH [OF r] o show ?thesis by simp
  next
    case False
    with Cons.prems have "fire_loop now es F = (F', out)" by (auto split: if_splits)
    then show ?thesis by (rule Cons.IH)
  qed
qed

lemma fire_loop_mono: "fire_loop now es F = (F', out) \<Longrightarrow> F \<subseteq> F'"
  using fire_loop_fired by blast

lemma fire_loop_complete:
  "fire_loop now es F = (F', out) \<Longrightarrow> e \<in> set es \<Longrightarrow> due now e \<Longrightarrow> event_key e \<in> F'"
proof (induction es arbitrary: F F' out)
  case Nil
  then show ?case by simp
next
  case (Cons a es)
  show ?case
  proof (cases "event_key a \<notin> F \<and> due now a")
    case True
    obtain F1 out1 where r: "fire_loop now es (insert (event_key a) F) = (F1, out1)"
      by (cases "fire_loop now es (insert (event_key a) F)")
    with True Cons.prems have f: "F' = F1" by simp
    show ?thesis
    proof (cases "e = a")
      case True
      with fire_loop_mono [OF r] f show ?thesis by auto
    next
      case False
      with Cons.prems have "e \<in> set es" by simp
      from Cons.IH [OF r this Cons.prems(3)] f show ?thesis by simp
    qed
  next
    case False
    with Cons.prems have r: "fire_loop now es F = (F', out)" by (auto split: if_splits)
    show ?thesis
    proof (cases "e = a")
      case True
      with False Cons.prems(3) have "event_key e \<in> F" by simp
      with fire_loop_mono [OF r] show ?thesis by auto
    next
      case False
      with Cons.prems have "e \<in> set es" by simp
      from Cons.IH [OF r this Cons.prems(3)] show ?thesis .
    qed
  qed
qed

lemma fire_loop_nothing_due:
  "\<forall>e \<in> set es. due now e \<longrightarrow> event_key e \<in> F \<Longrightarrow> fire_loop now es F = (F, [])"
  by (induction es) auto

lemma fire_loop_idem:
  assumes "fire_loop now es F = (F', out)"
  shows "fire_loop now es F' = (F', [])"
  by (rule fire_loop_nothing_due) (use fire_loop_complete [OF assms] in blast)

lemma fire_loop_filter:
  "distinct (map event_key es) \<Longrightarrow>
     snd (fire_loop now es F) = filter (\<lambda>e. due now e \<and> event_key e \<notin> F) es"
proof (induction es arbitrary: F)
  case Nil
  show ?case by simp
next
  case (Cons a es)
  then have d: "distinct (map event_key es)" and n: "event_key a \<notin> event_key ` set es"
    by simp_all
  have "filter (\<lambda>e. due now e \<and> event_key e \<notin> insert (event_key a) F) es =
        filter (\<lambda>e. due now e \<and> event_key e \<notin> F) es"
  proof (rule filter_cong [OF refl])
    fix x assume "x \<in> set es"
    then have "event_key x \<in> event_key ` set es" by (rule imageI)
    with n have "event_key x \<noteq> event_key a" by metis
    then show "(due now x \<and> event_key x \<notin> insert (event_key a) F) =
               (due now x \<and> event_key x \<notin> F)" by simp
  qed
  with Cons.IH [OF d, of "insert (event_key a) F"] Cons.IH [OF d, of F]
  show ?case by (auto split: prod.splits)
qed


lemma fire_and_update_result:
  assumes "fire_and_update now s = (s', out, pause)"
  shows "fire_loop now (schedule s) (fired s) = (fired s', out)"
    and "schedule s' = schedule s"
    and "last_refresh_date s' = last_refresh_date s"
    and "pause = POLL_SEC"
  using assms
  by (auto simp add: fire_and_update_def Let_def split: prod.splits if_splits)

text \<open>
  Claim C9.  A tick whose refresh is due and whose build raises leaves the engine state as
  it was, fires nothing and sleeps 300 seconds before the next tick; and every tick
  without a successful rebuild keeps the schedule and only adds to the fired set.
\<close>

theorem failed_refresh_keeps_state:
  "(should_refresh now (last_refresh_date s) (refreshed_after_2am s) \<and> build_in env = Inl e
      \<longrightarrow> tick now env s = (s, [], 300)) \<and>
   (\<not> rebuilds now env s
      \<longrightarrow> schedule (fst (tick now env s)) = schedule s \<and>
          fired s \<subseteq> fired (fst (tick now env s)))"
proof -
  have a: "tick now env s = (s, [], 300)"
    if "should_refresh now (last_refresh_date s) (refreshed_after_2am s) \<and> build_in env = Inl e"
    using that by (simp add: tick_def)
  have b: "schedule (fst (tick now env s)) = schedule s \<and> fired s \<subseteq> fired (fst (tick now env s))"
    if n: "\<not> rebuilds now env s"
  proof (cases "should_refresh now (last_refresh_date s) (refreshed_after_2am s)")
    case True
    with n obtain e where "build_in env = Inl e"
      by (cases "build_in env") (auto simp add: rebuilds_def)
    with True show ?thesis by (simp add: tick_def)
  next
    case False
    obtain s' out pause where r: "fire_and_update now s = (s', out, pause)"
      by (cases "fire_and_update now s")
    from fire_and_update_result(1,2) [OF r] fire_loop_mono [of now "schedule s" "fired s" "fired s'" out]
    have "schedule s' = schedule s \<and> fired s \<subseteq> fired s'" by simp
    with False r show ?thesis by (simp add: tick_def)
  qed
  from a b show ?thesis by blast
qed

lemma logged_append_distinct:
  assumes old: "distinct (map logged_key lg)"
    and new: "distinct (map event_key out)"
    and sep: "\<forall>ge \<in> set lg. fst ge = g' \<longrightarrow> event_key (snd ge) \<notin> event_key ` set out"
  shows "distinct (map logged_key (lg @ map (Pair g') out))"
proof -
  have a: "map logged_key (map (Pair g') out) = map (Pair g') (map event_key out)"
    by (simp add: logged_key_def)
  have b: "distinct (map (Pair g') (map event_key out))"
    using new by (simp add: distinct_map inj_on_def)
  have c: "set (map logged_key lg) \<inter> set (map logged_key (map (Pair g') out)) = {}"
  proof (rule ccontr)
    assume "set (map logged_key lg) \<inter> set (map logged_key (map (Pair g') out)) \<noteq> {}"
    then obtain k where k1: "k \<in> set (map logged_key lg)"
      and k2: "k \<in> set (map logged_key (map (Pair g') out))" by blast
    from k1 obtain ge where ge: "ge \<in> set lg" "k = logged_key ge" by auto
    from k2 obtain e where e: "e \<in> set out" "k = (g', event_key e)"
      by (auto simp add: logged_key_def)
    from ge(2) e(2) have "fst ge = g'" "event_key (snd ge) = event_key e"
      by (simp_all add: logged_key_def)
    with sep ge(1) e(1) show False by (metis imageI)
  qed
  have b': "distinct (map logged_key (map (Pair g') out))"
    unfolding a by (rule b)
  show ?thesis
    unfolding map_append distinct_append using old b' c by blast
qed

lemma tick_logged_inv:
  assumes "log_inv st"
  shows "log_inv (tick_logged st inp)"
proof -
  obtain s g lg where st: "st = (s, g, lg)" by (cases st)
  obtain now env where inp: "inp = (now, env)" by (cases inp)
  from assms st have
    le: "\<forall>ge \<in> set lg. fst ge \<le> g" and
    inF: "\<forall>ge \<in> set lg. fst ge = g \<longrightarrow> event_key (snd ge) \<in> fired s" and
    dist: "distinct (map logged_key lg)"
    by (simp_all add: log_inv_def)
  show ?thesis
  proof (cases "should_refresh now (last_refresh_date s) (refreshed_after_2am s)")
    case sr: True
    show ?thesis
    proof (cases "build_in env")
      case (Inl e)
      with sr have "tick now env s = (s, [], 300)" "\<not> rebuilds now env s"
        by (simp_all add: tick_def rebuilds_def)
      with assms st inp show ?thesis by (simp add: tick_logged_def)
    next
      case (Inr sched)
      define s0 where "s0 = s\<lparr>schedule := sched, fired := {},
                     last_refresh_date := Some (date_of (env_clock env)),
                     refreshed_after_2am := (dtime 2 0 0 \<le> time_of now)\<rparr>"
      obtain s' out pause where r: "fire_and_update now s0 = (s', out, pause)"
        by (cases "fire_and_update now s0")
      from sr Inr have rb: "rebuilds now env s" by (simp add: rebuilds_def)
      from sr Inr r have t: "tick now env s = (s', out, pause)"
        by (simp add: tick_def s0_def)
      from rb t st inp have res: "tick_logged st inp = (s', Suc g, lg @ map (Pair (Suc g)) out)"
        by (simp add: tick_logged_def)
      from fire_and_update_result(1) [OF r]
      have fl: "fire_loop now sched {} = (fired s', out)" by (simp add: s0_def)
      from fire_loop_fired [OF fl] have fs: "fired s' = event_key ` set out" by simp
      have d: "distinct (map logged_key (lg @ map (Pair (Suc g)) out))"
      proof (rule logged_append_distinct [OF dist fire_loop_distinct [OF fl]])
        show "\<forall>ge \<in> set lg. fst ge = Suc g \<longrightarrow> event_key (snd ge) \<notin> event_key ` set out"
          using le by fastforce
      qed
      have "\<forall>ge \<in> set (lg @ map (Pair (Suc g)) out). fst ge \<le> Suc g"
        using le by fastforce
      moreover have "\<forall>ge \<in> set (lg @ map (Pair (Suc g)) out).
          fst ge = Suc g \<longrightarrow> event_key (snd ge) \<in> fired s'"
        using le fs by fastforce
      ultimately show ?thesis using d by (simp add: res log_inv_def)
    qed
  next
    case sr: False
    obtain s' out pause where r: "fire_and_update now s = (s', out, pause)"
      by (cases "fire_and_update now s")
    from sr have rb: "\<not> rebuilds now env s" by (simp add: rebuilds_def)
    from sr r have t: "tick now env s = (s', out, pause)" by (simp add: tick_def)
    from rb t st inp have res: "tick_logged st inp = (s', g, lg @ map (Pair g) out)"
      by (simp add: tick_logged_def)
    from fire_and_update_result(1) [OF r]
    have fl: "fire_loop now (schedule s) (fired s) = (fired s', out)" .
    from fire_loop_fired [OF fl] have fs: "fired s' = fired s \<union> event_key ` set out" .
    have sep: "\<forall>ge \<in> set lg. fst ge = g \<longrightarrow> event_key (snd ge) \<notin> event_key ` set out"
    proof (intro ballI impI)
      fix ge assume ge: "ge \<in> set lg" "fst ge = g"
      with inF have i: "event_key (snd ge) \<in> fired s" by blast
      show "event_key (snd ge) \<notin> event_key ` set out"
      proof
        assume "event_key (snd ge) \<in> event_key ` set out"
        then obtain x where x: "x \<in> set out" "event_key (snd ge) = event_key x" by blast
        from fire_loop_out [OF fl x(1)] have "event_key x \<notin> fired s" by blast
        with i x(2) show False by simp
      qed
    qed
    have d: "distinct (map logged_key (lg @ map (Pair g) out))"
      by (rule logged_append_distinct [OF dist fire_loop_distinct [OF fl] sep])
    have "\<forall>ge \<in> set (lg @ map (Pair g) out). fst ge \<le> g"
      using le by fastforce
    moreover have "\<forall>ge \<in> set (lg @ map (Pair g) out).
        fst ge = g \<longrightarrow> event_key (snd ge) \<in> fired s'"
      using inF fs by fastforce
    ultimately show ?thesis using d by (simp add: res log_inv_def)
  qed
qed

lemma run_logged_inv: "log_inv st \<Longrightarrow> log_inv (run_logged st inps)"
  unfolding run_logged_def
  by (induction inps arbitrary: st) (simp_all add: tick_logged_inv)

lemma run_logged_distinct:
  "distinct (map logged_key (snd (snd (run_logged (s, g, []) inps))))"
proof -
  have "log_inv (s, g, [])" by (simp add: log_inv_def)
  from run_logged_inv [OF this, of inps] show ?thesis
    by (cases "run_logged (s, g, []) inps") (simp add: log_inv_def)
qed

text \<open>
  Claim C1.  One pass of the firing loop fires only events of the schedule that are due
  and whose key is not yet in the fired set; the keys of the events it fires are pairwise
  distinct and are added to the fired set, which then holds the key of every due event;
  on a schedule with distinct keys the pass fires exactly the due events not yet fired,
  each once; and a second pass with the same \<open>now\<close> fires nothing.  Over any run of the
  engine loop, no key is fired twice within one schedule generation: a key can fire
  again only after a successful rebuild has started a new generation.
\<close>

theorem fires_once_per_generation:
  "(case fire_loop now sched fired_keys of
      (fired_keys', out) \<Rightarrow>
        (\<forall>e \<in> set out. e \<in> set sched \<and> due now e \<and> event_key e \<notin> fired_keys) \<and>
        distinct (map event_key out) \<and>
        fired_keys' = fired_keys \<union> event_key ` set out \<and>
        (\<forall>e \<in> set sched. due now e \<longrightarrow> event_key e \<in> fired_keys') \<and>
        (distinct (map event_key sched) \<longrightarrow>
           out = filter (\<lambda>e. due now e \<and> event_key e \<notin> fired_keys) sched) \<and>
        fire_loop now sched fired_keys' = (fired_keys', [])) \<and>
   distinct (map logged_key (snd (snd (run_logged (s, g, []) inps))))"
proof -
  obtain F' out where r: "fire_loop now sched fired_keys = (F', out)"
    by (cases "fire_loop now sched fired_keys")
  have 1: "\<forall>e \<in> set out. e \<in> set sched \<and> due now e \<and> event_key e \<notin> fired_keys"
    using fire_loop_out [OF r] by blast
  have 2: "distinct (map event_key out)" by (rule fire_loop_distinct [OF r])
  have 3: "F' = fired_keys \<union> event_key ` set out" by (rule fire_loop_fired [OF r])
  have 4: "\<forall>e \<in> set sched. due now e \<longrightarrow> event_key e \<in> F'"
    using fire_loop_complete [OF r] by blast
  have 5: "distinct (map event_key sched) \<longrightarrow>
           out = filter (\<lambda>e. due now e \<and> event_key e \<notin> fired_keys) sched"
    using fire_loop_filter [of sched now fired_keys] r by simp
  have 6: "fire_loop now sched F' = (F', [])" by (rule fire_loop_idem [OF r])
  from 1 2 3 4 5 6 run_logged_distinct [of s g inps] show ?thesis
    by (simp only: r prod.case)
qed

lemma fire_and_update_flag:
  assumes "\<not> should_refresh now (last_refresh_date s) (refreshed_after_2am s)"
  shows "refreshed_after_2am (fst (fire_and_update now s)) = refreshed_after_2am s"
    and "last_refresh_date (fst (fire_and_update now s)) = last_refresh_date s"
  using assms
  by (auto simp add: fire_and_update_def should_refresh_def Let_def split: prod.splits if_splits)

lemma fire_and_update_fresh_flag:
  assumes "refreshed_after_2am s = (dtime 2 0 0 \<le> time_of now)"
  shows "refreshed_after_2am (fst (fire_and_update now s)) = (dtime 2 0 0 \<le> time_of now)"
    and "last_refresh_date (fst (fire_and_update now s)) = last_refresh_date s"
  using assms
  by (auto simp add: fire_and_update_def Let_def split: prod.splits if_splits)

lemma tick_refresh_state:
  "refreshed_after_2am (fst (tick now env s)) =
     (if rebuilds now env s then dtime 2 0 0 \<le> time_of now else refreshed_after_2am s)"
  "last_refresh_date (fst (tick now env s)) =
     (if rebuilds now env s then Some (date_of (env_clock env)) else last_refresh_date s)"
proof -
  show "refreshed_after_2am (fst (tick now env s)) =
     (if rebuilds now env s then dtime 2 0 0 \<le> time_of now else refreshed_after_2am s)"
  proof (cases "should_refresh now (last_refresh_date s) (refreshed_after_2am s)")
    case True
    show ?thesis
    proof (cases "build_in env")
      case (Inl e)
      with True show ?thesis by (simp add: tick_def rebuilds_def)
    next
      case (Inr sched)
      with True show ?thesis
        by (simp add: tick_def rebuilds_def fire_and_update_fresh_flag)
    qed
  next
    case False
    then show ?thesis by (simp add: tick_def rebuilds_def fire_and_update_flag)
  qed
  show "last_refresh_date (fst (tick now env s)) =
     (if rebuilds now env s then Some (date_of (env_clock env)) else last_refresh_date s)"
  proof (cases "should_refresh now (last_refresh_date s) (refreshed_after_2am s)")
    case True
    show ?thesis
    proof (cases "build_in env")
      case (Inl e)
      with True show ?thesis by (simp add: tick_def rebuilds_def)
    next
      case (Inr sched)
      with True show ?thesis
        by (simp add: tick_def rebuilds_def fire_and_update_fresh_flag)
    qed
  next
    case False
    then show ?thesis by (simp add: tick_def rebuilds_def fire_and_update_flag)
  qed
qed

lemma time_of_mono:
  assumes "date_of a = date_of b" and "a \<le> b"
  shows "time_of a \<le> time_of b"
proof -
  have "a = usec_per_day * date_of a + time_of a" "b = usec_per_day * date_of b + time_of b"
    by (simp_all add: date_of_def time_of_def)
  with assms(1) have "a - time_of a = b - time_of b" by simp
  with assms(2) show ?thesis by linarith
qed

lemma tick_tracked_justified:
  assumes "flag_justified st"
    and "rebuilds now env (fst st) \<Longrightarrow> date_of (env_clock env) = date_of now \<and> now \<le> env_clock env"
  shows "flag_justified (tick_tracked st (now, env))"
proof -
  obtain s builds where st: "st = (s, builds)" by (cases st)
  show ?thesis
  proof (cases "rebuilds now env s")
    case True
    with assms(2) st have "date_of (env_clock env) = date_of now" "now \<le> env_clock env"
      by simp_all
    then have "time_of now \<le> time_of (env_clock env)" by (simp add: time_of_mono)
    with True show ?thesis
      by (auto simp add: st flag_justified_def tick_tracked_def tick_refresh_state)
  next
    case False
    with assms(1) show ?thesis
      by (auto simp add: st flag_justified_def tick_tracked_def tick_refresh_state)
  qed
qed

lemma initial_tracked_justified:
  "initial_tracked envs = Some st \<Longrightarrow> flag_justified st"
proof (induction envs)
  case Nil
  then show ?case by simp
next
  case (Cons env envs)
  show ?case
  proof (cases "build_in env")
    case (Inl e)
    with Cons show ?thesis by simp
  next
    case (Inr sched)
    with Cons.prems have "st = (init_engine sched (env_clock env), [env_clock env])" by simp
    then show ?thesis by (simp add: flag_justified_def init_engine_def)
  qed
qed

lemma run_tracked_justified:
  assumes "flag_justified st"
    and "\<forall>inp \<in> set inps. date_of (env_clock (snd inp)) = date_of (fst inp) \<and>
           fst inp \<le> env_clock (snd inp)"
  shows "flag_justified (run_tracked st inps)"
  using assms
proof (induction inps arbitrary: st)
  case Nil
  then show ?case by (simp add: run_tracked_def)
next
  case (Cons inp inps)
  obtain now env where inp: "inp = (now, env)" by (cases inp)
  with Cons.prems(2) have "date_of (env_clock env) = date_of now \<and> now \<le> env_clock env"
    by simp
  with Cons.prems(1) have "flag_justified (tick_tracked st (now, env))"
    by (intro tick_tracked_justified) simp_all
  with Cons.IH [of "tick_tracked st inp"] Cons.prems(2) inp
  show ?case by (simp add: run_tracked_def)
qed

lemma example_clocks:
  "date_of (combine monday_2024_01_01 (dtime 1 0 0)) = monday_2024_01_01"
  "time_of (combine monday_2024_01_01 (dtime 1 0 0)) = dtime 1 0 0"
  "date_of (combine monday_2024_01_01 (dtime 23 59 58)) = monday_2024_01_01"
  "time_of (combine monday_2024_01_01 (dtime 23 59 58)) = dtime 23 59 58"
  "date_of (combine (monday_2024_01_01 + 1) (dtime 0 0 1)) = monday_2024_01_01 + 1"
  "time_of (combine (monday_2024_01_01 + 1) (dtime 0 0 1)) = dtime 0 0 1"
  by (simp_all add: date_of_def time_of_def time_defs monday_2024_01_01_def)

lemma build_empty:
  "build_today_schedule (Inr Map.empty) today ex = Inr [morning_event today]"
  by (simp add: build_today_schedule_def emit_events_def PRAYERS_def morning_event_def Let_def)

lemma build_failed: "build_today_schedule (Inl e) today ex = Inl e"
  by (simp add: build_today_schedule_def emit_events_def)

text \<open>
  Claim C8, evaluated at a run that breaks it.  The first build succeeds on Monday at
  01:00, so the flag is unset.  A tick starts on Monday at 23:59:58; its refresh is due,
  the fetch returns after midnight, and \<^verbatim>\<open>date.today()\<close> gives Tuesday while the flag is
  computed from the \<open>now\<close> read before midnight: the flag is set for Tuesday, whose only
  build was made at 00:00:01.
\<close>

theorem midnight_rebuild_sets_flag:
  "initial_tracked
     [\<lparr>env_fetched = Inl RequestError, env_clock = combine monday_2024_01_01 (dtime 0 59 0),
        env_isha_pre = False\<rparr>,
      \<lparr>env_fetched = Inr Map.empty, env_clock = combine monday_2024_01_01 (dtime 1 0 0),
        env_isha_pre = False\<rparr>] =
   Some (\<lparr>schedule = [morning_event monday_2024_01_01], fired = {},
          last_refresh_date = Some monday_2024_01_01, refreshed_after_2am = False\<rparr>,
         [combine monday_2024_01_01 (dtime 1 0 0)]) \<and>
   run_tracked
     (\<lparr>schedule = [morning_event monday_2024_01_01], fired = {},
       last_refresh_date = Some monday_2024_01_01, refreshed_after_2am = False\<rparr>,
      [combine monday_2024_01_01 (dtime 1 0 0)])
     [(combine monday_2024_01_01 (dtime 23 59 58),
       \<lparr>env_fetched = Inr Map.empty, env_clock = combine (monday_2024_01_01 + 1) (dtime 0 0 1),
        env_isha_pre = False\<rparr>)] =
   (\<lparr>schedule = [morning_event (monday_2024_01_01 + 1)], fired = {},
     last_refresh_date = Some (monday_2024_01_01 + 1), refreshed_after_2am = True\<rparr>,
    [combine monday_2024_01_01 (dtime 1 0 0), combine (monday_2024_01_01 + 1) (dtime 0 0 1)])"
  by (simp add: run_tracked_def tick_tracked_def tick_def rebuilds_def build_in_def build_empty build_failed
      init_engine_def should_refresh_def fire_and_update_def example_clocks Let_def)
     (simp add: morning_event_def event_key_def due_def ev_time_def time_defs
        TRIGGER_WINDOW_SEC_def POLL_SEC_def monday_2024_01_01_def)


text \<open>An instance of the theorem above, evaluated.\<close>

theorem fires_once_per_generation_witness:
  "fire_loop (combine monday_2024_01_01 (dtime 5 30 5))
     [(''Fajr-QuranPre'', combine monday_2024_01_01 (dtime 5 25 0), ''quran'', None),
      (''Fajr'', combine monday_2024_01_01 (dtime 5 30 0), ''play'', Some SOUND_FAJR),
      (''Morning-Athkar'', combine monday_2024_01_01 (dtime 6 30 0), ''play'', Some SOUND_MORNING)]
     {} =
   ({(''Fajr'', monday_2024_01_01, dtime 5 30 0)},
    [(''Fajr'', combine monday_2024_01_01 (dtime 5 30 0), ''play'', Some SOUND_FAJR)]) \<and>
   fire_loop (combine monday_2024_01_01 (dtime 5 30 5))
     [(''Fajr-QuranPre'', combine monday_2024_01_01 (dtime 5 25 0), ''quran'', None),
      (''Fajr'', combine monday_2024_01_01 (dtime 5 30 0), ''play'', Some SOUND_FAJR),
      (''Morning-Athkar'', combine monday_2024_01_01 (dtime 6 30 0), ''play'', Some SOUND_MORNING)]
     {(''Fajr'', monday_2024_01_01, dtime 5 30 0)} =
   ({(''Fajr'', monday_2024_01_01, dtime 5 30 0)}, [])"
  using fires_once_per_generation [where now = "combine monday_2024_01_01 (dtime 5 30 5)" and fired_keys = "{}" and sched =
     "[(''Fajr-QuranPre'', combine monday_2024_01_01 (dtime 5 25 0), ''quran'', None),
      (''Fajr'', combine monday_2024_01_01 (dtime 5 30 0), ''play'', Some SOUND_FAJR),
      (''Morning-Athkar'', combine monday_2024_01_01 (dtime 6 30 0), ''play'', Some SOUND_MORNING)]"]
  by (simp add: event_key_def due_def ev_time_def ev_label_def date_of_def time_of_def time_defs
      TRIGGER_WINDOW_SEC_def monday_2024_01_01_def)

text \<open>An instance of the theorem above, evaluated.\<close>

theorem failed_refresh_keeps_state_witness:
  "tick (combine monday_2024_01_01 (dtime 2 0 0))
     \<lparr>env_fetched = Inl RequestError, env_clock = combine monday_2024_01_01 (dtime 2 0 20),
      env_isha_pre = True\<rparr>
     \<lparr>schedule = [morning_event monday_2024_01_01],
      fired = {(''Fajr'', monday_2024_01_01, dtime 5 30 0)},
      last_refresh_date = Some monday_2024_01_01, refreshed_after_2am = False\<rparr> =
   (\<lparr>schedule = [morning_event monday_2024_01_01],
      fired = {(''Fajr'', monday_2024_01_01, dtime 5 30 0)},
      last_refresh_date = Some monday_2024_01_01, refreshed_after_2am = False\<rparr>, [], 300)"
  using failed_refresh_keeps_state [where now = "combine monday_2024_01_01 (dtime 2 0 0)" and e = RequestError and s =
     "\<lparr>schedule = [morning_event monday_2024_01_01],
      fired = {(''Fajr'', monday_2024_01_01, dtime 5 30 0)},
      last_refresh_date = Some monday_2024_01_01, refreshed_after_2am = False\<rparr>" and env =
     "\<lparr>env_fetched = Inl RequestError, env_clock = combine monday_2024_01_01 (dtime 2 0 20),
      env_isha_pre = True\<rparr>"]
  by (simp add: should_refresh_def build_in_def build_failed clock_examples)

lemma midnight_flag_not_justified:
  "\<not> flag_justified
     (\<lparr>schedule = [morning_event (monday_2024_01_01 + 1)], fired = {},
       last_refresh_date = Some (monday_2024_01_01 + 1), refreshed_after_2am = True\<rparr>,
      [combine monday_2024_01_01 (dtime 1 0 0), combine (monday_2024_01_01 + 1) (dtime 0 0 1)])"
  by (simp add: flag_justified_def example_clocks) (simp add: dtime_def)

section \<open>Properties of the segment player\<close>

lemma fmod_range:
  assumes "0 < d"
  shows "0 \<le> fmod x d" and "fmod x d < d"
proof -
  have e: "d * (x / d) = x" using assms by simp
  have a: "of_int \<lfloor>x / d\<rfloor> \<le> x / d" by (rule of_int_floor_le)
  have b: "x / d < of_int \<lfloor>x / d\<rfloor> + 1" by linarith
  have "d * of_int \<lfloor>x / d\<rfloor> \<le> d * (x / d)"
    using a assms by (intro mult_left_mono) simp_all
  with e have "d * of_int \<lfloor>x / d\<rfloor> \<le> x" by simp
  then show "0 \<le> fmod x d" by (simp add: fmod_def)
  have "d * (x / d) < d * (of_int \<lfloor>x / d\<rfloor> + 1)"
    using b assms by (intro mult_strict_left_mono) simp_all
  with e have "x < d * of_int \<lfloor>x / d\<rfloor> + d" by (simp add: algebra_simps)
  then show "fmod x d < d" by (simp add: fmod_def)
qed

lemma play_loop_exit:
  "\<not> clock < end_time \<Longrightarrow> play_loop duration end_time clock offset = Some (Inr (clock, offset))"
  by (subst play_loop.simps) simp

lemma play_loop_from_start:
  assumes d: "0 < d"
  shows "clock < end_time \<Longrightarrow> play_loop d end_time clock 0 = Some (Inr (end_time, 0))"
proof (induction "nat \<lceil>(end_time - clock) / d\<rceil>" arbitrary: clock rule: less_induct)
  case less
  let ?r = "end_time - clock"
  from less.prems have r: "0 < ?r" by simp
  show ?case
  proof (cases "?r \<le> d")
    case True
    then have m: "min (d - 0) ?r = ?r" by simp
    have "play_loop d end_time clock 0 = play_loop d end_time (clock + ?r) 0"
      using less.prems r m by (subst play_loop.simps) (simp add: Let_def)
    also have "\<dots> = Some (Inr (end_time, 0))"
      using play_loop_exit [of "clock + ?r" end_time d 0] by simp
    finally show ?thesis .
  next
    case False
    then have m: "min (d - 0) ?r = d" by simp
    have step: "play_loop d end_time clock 0 = play_loop d end_time (clock + d) 0"
      using less.prems d m by (subst play_loop.simps) (simp add: Let_def)
    from False have lt: "clock + d < end_time" by simp
    have "(end_time - (clock + d)) / d = ?r / d - 1"
      using d by (simp add: field_simps)
    then have c: "\<lceil>(end_time - (clock + d)) / d\<rceil> = \<lceil>?r / d\<rceil> - 1" by simp
    from False d have "1 < ?r / d" by (simp add: field_simps)
    then have "1 < \<lceil>?r / d\<rceil>" by (simp add: less_ceiling_iff)
    with c have "nat \<lceil>(end_time - (clock + d)) / d\<rceil> < nat \<lceil>?r / d\<rceil>" by simp
    from less.hyps [OF this lt] step show ?thesis by simp
  qed
qed

lemma play_loop_returns:
  assumes d: "0 < d" and o: "0 \<le> offset" "offset < d" and c: "clock < end_time"
  shows "play_loop d end_time clock offset = Some (Inr (end_time, 0))"
proof -
  let ?p = "min (d - offset) (end_time - clock)"
  from o c have p: "0 < ?p" by (simp add: min_def)
  from p have np: "\<not> ?p < 0" by linarith
  have step: "play_loop d end_time clock offset = play_loop d end_time (clock + ?p) 0"
    by (subst play_loop.simps) (simp only: c np Let_def if_True if_False)
  show ?thesis
  proof (cases "clock + ?p < end_time")
    case True
    from play_loop_from_start [OF d True] step show ?thesis by simp
  next
    case False
    have "clock + ?p \<le> end_time" by simp
    with False have "clock + ?p = end_time" by simp
    with play_loop_exit [OF False, of d 0] step show ?thesis by simp
  qed
qed

lemma play_quran_segment_saves:
  assumes "0 < d"
  shows "play_quran_segment True True (Some d) stored clock = Some (Saved (fmod PRECLIP_SECONDS d))"
proof -
  have "play_loop d (clock + PRECLIP_SECONDS) clock (fmod stored d) =
          Some (Inr (clock + PRECLIP_SECONDS, 0))"
    by (rule play_loop_returns [OF assms fmod_range [OF assms]]) (simp add: PRECLIP_SECONDS_def)
  then have "play_thread d (clock + PRECLIP_SECONDS) clock (fmod stored d) =
          Some (Inr (fmod PRECLIP_SECONDS d))"
    by (simp add: play_thread_def)
  with assms show ?thesis by (simp add: play_quran_segment_def Let_def)
qed

text \<open>
  Claim C5.  With the window of 600 seconds and a stored offset of 0, a file of 600
  seconds saves the offset 0 and a file of 400 seconds saves the offset 200.
\<close>

theorem offset_round_trip_examples:
  "play_quran_segment True True (Some 600) 0 clock = Some (Saved 0) \<and>
   play_quran_segment True True (Some 400) 0 clock = Some (Saved 200)"
  using play_quran_segment_saves [of 600 0 clock] play_quran_segment_saves [of 400 0 clock]
  by (simp add: fmod_def PRECLIP_SECONDS_def)

text \<open>
  Claim C2, evaluated at an input that breaks it.  With a file of 1000 seconds and a
  stored offset of 300, playback stops 900 seconds into the file, and the offset saved
  is 600: the loop has set \<^verbatim>\<open>offset\<close> to 0 before the final computation reads it.
\<close>

theorem saved_offset_ignores_start:
  "play_quran_segment True True (Some 1000) 300 clock = Some (Saved 600) \<and>
   fmod (300 + PRECLIP_SECONDS) 1000 = 900"
  using play_quran_segment_saves [of 1000 300 clock]
  by (simp add: fmod_def PRECLIP_SECONDS_def)

end
